theory Spec2Isabelle
  imports Main "HOL-Library.Sublist"
begin

section \<open>Python strings\<close>

text \<open>
  A Python \<open>str\<close> is a sequence of Unicode code points; \<open>len\<close> counts code points.
  A code point is a natural number here and a string is a list of them. \<open>lit\<close> turns
  an ASCII literal into such a string.
\<close>

type_synonym pystr = "nat list"

definition lit :: "string \<Rightarrow> pystr" where
  "lit s = map of_char s"

text \<open>
  \<open>str.isspace\<close> for one code point, as CPython's Unicode database has it: the
  characters that \<open>str.strip()\<close> removes when it is called with no argument.
\<close>

definition isspace :: "nat \<Rightarrow> bool" where
  "isspace c =
     ((9 \<le> c \<and> c \<le> 13) \<or> (28 \<le> c \<and> c \<le> 32) \<or> c = 133 \<or> c = 160 \<or>
      c = 5760 \<or> (8192 \<le> c \<and> c \<le> 8202) \<or> c = 8232 \<or> c = 8233 \<or>
      c = 8239 \<or> c = 8287 \<or> c = 12288)"

definition lstrip :: "pystr \<Rightarrow> pystr" where
  "lstrip s = dropWhile isspace s"

definition rstrip :: "pystr \<Rightarrow> pystr" where
  "rstrip s = rev (dropWhile isspace (rev s))"

text \<open>\<open>s.strip()\<close>: leading and trailing whitespace removed.\<close>

definition strip :: "pystr \<Rightarrow> pystr" where
  "strip s = rstrip (lstrip s)"

text \<open>
  \<open>s.split(sep)\<close> for a one-character separator: every occurrence of the separator
  cuts, empty pieces are kept, and the result always has at least one piece.
\<close>

fun split_on :: "nat \<Rightarrow> pystr \<Rightarrow> pystr list" where
  "split_on sep [] = [[]]"
| "split_on sep (c # cs) =
     (if c = sep then [] # split_on sep cs
      else (case split_on sep cs of
              [] \<Rightarrow> [[c]]
            | piece # pieces \<Rightarrow> (c # piece) # pieces))"

text \<open>\<open>sub in s\<close> for strings: \<open>sub\<close> occurs in \<open>s\<close> as a contiguous substring.\<close>

fun str_in :: "pystr \<Rightarrow> pystr \<Rightarrow> bool" where
  "str_in sub [] = (sub = [])"
| "str_in sub (c # cs) = (prefix sub (c # cs) \<or> str_in sub cs)"

text \<open>Slices \<open>s[:k]\<close> and \<open>s[k:]\<close> for any integer \<open>k\<close>; a negative \<open>k\<close> counts from the end.\<close>

definition slice_to :: "pystr \<Rightarrow> int \<Rightarrow> pystr" where
  "slice_to s k = (if 0 \<le> k then take (nat k) s else take (nat (int (length s) + k)) s)"

definition slice_from :: "pystr \<Rightarrow> int \<Rightarrow> pystr" where
  "slice_from s k = (if 0 \<le> k then drop (nat k) s else drop (nat (int (length s) + k)) s)"

text \<open>\<open>str(n)\<close> for an integer.\<close>

fun str_nat :: "nat \<Rightarrow> pystr" where
  "str_nat n = (if n < 10 then [48 + n] else str_nat (n div 10) @ [48 + n mod 10])"

declare str_nat.simps [simp del]

definition str_int :: "int \<Rightarrow> pystr" where
  "str_int i = (if i < 0 then 45 # str_nat (nat (- i)) else str_nat (nat i))"

section \<open>Errors\<close>

datatype error =
    FileNotFoundError
  | RuntimeError pystr
  | ValueError pystr
  | IndexError

section \<open>The command runner\<close>

text \<open>
  \<open>subprocess.run\<close> is the environment: given the argument vector it either raises
  (the binary is missing) or completes with an exit code and the two captured streams.
\<close>

record CompletedProcess =
  returncode :: int
  stdout :: pystr
  stderr :: pystr

type_synonym subprocess = "pystr list \<Rightarrow> error + CompletedProcess"

text \<open>\<open>GitAnalyzer._run_git\<close>.\<close>

definition run_git :: "subprocess \<Rightarrow> pystr list \<Rightarrow> error + pystr" where
  "run_git run args =
     (case run (lit ''git'' # args) of
        Inl FileNotFoundError \<Rightarrow> Inl (RuntimeError (lit ''Git is not installed or not in PATH''))
      | Inl e \<Rightarrow> Inl e
      | Inr result \<Rightarrow>
          if returncode result \<noteq> 0 \<and> stderr result \<noteq> [] then
            if str_in (lit ''fatal:'') (stderr result)
            then Inl (RuntimeError (lit ''Git error: '' @ strip (stderr result)))
            else Inr (stdout result)
          else Inr (stdout result))"

section \<open>Configuration and provider selection\<close>

datatype LLMProvider = GEMINI | OPENROUTER

record Config =
  gemini_api_key :: pystr
  openrouter_api_key :: pystr
  default_days :: int
  max_diff_chars :: int
  gemini_model :: pystr
  openrouter_model :: pystr
  preferred_provider :: pystr
  slack_webhook_url :: pystr

text \<open>The message of the error raised when no provider can be selected.\<close>

definition no_key_message :: pystr where
  "no_key_message =
     lit ''No LLM API key configured. Please set one of:'' @ [10] @
     lit ''  '' @ [8226] @
     lit '' OPENROUTER_API_KEY (get free at https://openrouter.ai/keys) [RECOMMENDED]'' @ [10] @
     lit ''  '' @ [8226] @
     lit '' GEMINI_API_KEY (get at https://aistudio.google.com/apikey)''"

text \<open>\<open>Config.get_active_provider\<close>; a key is set when the string is not empty.\<close>

definition get_active_provider :: "Config \<Rightarrow> error + LLMProvider" where
  "get_active_provider cfg =
     (if preferred_provider cfg = lit ''gemini'' \<and> gemini_api_key cfg \<noteq> [] then Inr GEMINI
      else if preferred_provider cfg = lit ''openrouter'' \<and> openrouter_api_key cfg \<noteq> []
        then Inr OPENROUTER
      else if preferred_provider cfg = lit ''auto'' then
        (if openrouter_api_key cfg \<noteq> [] then Inr OPENROUTER
         else if gemini_api_key cfg \<noteq> [] then Inr GEMINI
         else Inl (ValueError no_key_message))
      else Inl (ValueError no_key_message))"

section \<open>Repository status\<close>

record RepoStatus =
  staged :: "pystr list"
  modified :: "pystr list"
  untracked :: "pystr list"
  is_dirty :: bool
  branch :: pystr

text \<open>\<open>GitAnalyzer.get_current_branch\<close>.\<close>

definition get_current_branch :: "subprocess \<Rightarrow> error + pystr" where
  "get_current_branch run =
     (case run_git run [lit ''branch'', lit ''--show-current''] of
        Inl e \<Rightarrow> Inl e
      | Inr out \<Rightarrow> Inr (strip out))"

text \<open>
  The loop of \<open>get_repo_status\<close> over the lines, with the three lists it appends to
  (\<open>staged\<close>, \<open>modified\<close> and \<open>untracked\<close>).
  \<open>code[0]\<close> is safe on a non-empty line; \<open>code[1]\<close> raises \<open>IndexError\<close> on a line
  of one character, after \<open>staged\<close> was updated.
\<close>

fun status_loop ::
  "pystr list \<Rightarrow> pystr list \<times> pystr list \<times> pystr list
     \<Rightarrow> error + (pystr list \<times> pystr list \<times> pystr list)" where
  "status_loop [] acc = Inr acc"
| "status_loop (line # lines) (sg, md, ut) =
     (if line = [] then status_loop lines (sg, md, ut)
      else
        let code = slice_to line 2;
            filename = slice_from line 3;
            sg' = (if str_in [code ! 0] (lit ''MADRC'') then sg @ [filename] else sg)
        in if length code < 2 then Inl IndexError
           else
             let md' = (if [code ! 1] = lit ''M'' then md @ [filename] else md);
                 ut' = (if code = lit ''??'' then ut @ [filename] else ut)
             in status_loop lines (sg', md', ut'))"

text \<open>Python's \<open>a or b\<close> on lists, and \<open>bool\<close> of a list.\<close>

definition py_or :: "'a list \<Rightarrow> 'a list \<Rightarrow> 'a list" where
  "py_or a b = (if a \<noteq> [] then a else b)"

definition py_bool :: "'a list \<Rightarrow> bool" where
  "py_bool a = (a \<noteq> [])"

text \<open>
  What \<open>get_repo_status\<close> does with the text of \<open>git status --porcelain\<close>, before it
  asks for the branch.
\<close>

definition parse_status ::
  "pystr \<Rightarrow> error + (pystr list \<times> pystr list \<times> pystr list)" where
  "parse_status status_output = status_loop (split_on 10 (strip status_output)) ([], [], [])"

text \<open>\<open>GitAnalyzer.get_repo_status\<close>.\<close>

definition get_repo_status :: "subprocess \<Rightarrow> error + RepoStatus" where
  "get_repo_status run =
     (case run_git run [lit ''status'', lit ''--porcelain''] of
        Inl e \<Rightarrow> Inl e
      | Inr status_output \<Rightarrow>
          (case parse_status status_output of
             Inl e \<Rightarrow> Inl e
           | Inr (sg, md, ut) \<Rightarrow>
               (case get_current_branch run of
                  Inl e \<Rightarrow> Inl e
                | Inr b \<Rightarrow>
                    Inr \<lparr>staged = sg, modified = md, untracked = ut,
                         is_dirty = py_bool (py_or sg md), branch = b\<rparr>)))"

section \<open>Diff statistics\<close>

record DiffSummary =
  files :: "pystr list"
  total_additions :: int
  total_deletions :: int
  raw_diff :: pystr

text \<open>
  The digit class of a \<open>str\<close> pattern is every Unicode decimal digit, and \<open>int\<close>
  reads each by its decimal value. The ASCII digits are fixed; the decimal values of the
  code points from 128 on come from the interpreter's Unicode database, which is the
  parameter \<open>nd\<close>.
\<close>

type_synonym digits = "nat \<Rightarrow> nat option"

definition digit_value :: "digits \<Rightarrow> nat \<Rightarrow> nat option" where
  "digit_value nd c =
     (if 48 \<le> c \<and> c \<le> 57 then Some (c - 48) else if c < 128 then None else nd c)"

text \<open>The longest run of digits at the start of a string (their values), and the rest.\<close>

fun take_digits :: "digits \<Rightarrow> pystr \<Rightarrow> nat list \<times> pystr" where
  "take_digits nd [] = ([], [])"
| "take_digits nd (c # cs) =
     (case digit_value nd c of
        None \<Rightarrow> ([], c # cs)
      | Some d \<Rightarrow> (case take_digits nd cs of (ds, rest) \<Rightarrow> (d # ds, rest)))"

text \<open>The number a run of decimal digits denotes.\<close>

definition int_of_digits :: "nat list \<Rightarrow> int" where
  "int_of_digits ds = foldl (\<lambda>a d. 10 * a + int d) 0 ds"

text \<open>
  \<open>int(s)\<close> on a string of decimal digits, as CPython from 3.11 on does it: a string
  of more than \<open>sys.get_int_max_str_digits()\<close> digits (4300 unless reconfigured; leading
  zeros count) raises \<open>ValueError\<close>, any other is converted.
\<close>

definition int_max_str_digits :: nat where
  "int_max_str_digits = 4300"

definition int_limit_message :: "nat \<Rightarrow> pystr" where
  "int_limit_message n =
     lit ''Exceeds the limit (4300 digits) for integer string conversion: value has '' @
     str_nat n @
     lit '' digits; use sys.set_int_max_str_digits() to increase the limit''"

definition py_int :: "nat list \<Rightarrow> error + int" where
  "py_int ds =
     (if length ds > int_max_str_digits then Inl (ValueError (int_limit_message (length ds)))
      else Inr (int_of_digits ds))"

text \<open>
  A match of the pattern (one or more digits as group 1, a space, the noun, an optional
  \<open>s\<close>, the sign) that starts at the first character. The digit group is greedy and
  takes the whole run of digits: a shorter run is followed by a digit, never by the
  space, so backtracking finds nothing more. The result is group 1, as the values of
  its digits. The two patterns of the source are the nouns \<open>insertion\<close> and
  \<open>deletion\<close> with the signs \<open>(+)\<close> and \<open>(-)\<close>.
\<close>

definition match_group :: "digits \<Rightarrow> pystr \<Rightarrow> pystr \<Rightarrow> pystr \<Rightarrow> nat list option" where
  "match_group nd noun sign s =
     (case take_digits nd s of
        (ds, rest) \<Rightarrow>
          if ds \<noteq> [] \<and>
             (prefix (lit '' '' @ noun @ lit ''s'' @ sign) rest \<or> prefix (lit '' '' @ noun @ sign) rest)
          then Some ds else None)"

text \<open>\<open>re.search\<close>: the match at the leftmost position that has one (its group 1).\<close>

fun re_search :: "digits \<Rightarrow> pystr \<Rightarrow> pystr \<Rightarrow> pystr \<Rightarrow> nat list option" where
  "re_search nd noun sign [] = match_group nd noun sign []"
| "re_search nd noun sign (c # cs) =
     (case match_group nd noun sign (c # cs) of
        Some ds \<Rightarrow> Some ds
      | None \<Rightarrow> re_search nd noun sign cs)"

text \<open>
  The count a pattern gives: 0 when the search finds nothing, \<open>int\<close> of group 1
  otherwise.
\<close>

definition search_count :: "digits \<Rightarrow> pystr \<Rightarrow> pystr \<Rightarrow> pystr \<Rightarrow> error + int" where
  "search_count nd noun sign s =
     (case re_search nd noun sign s of
        None \<Rightarrow> Inr 0
      | Some ds \<Rightarrow> py_int ds)"

text \<open>The loop over the lines of the summary, appending to \<open>files\<close>.\<close>

fun files_loop :: "pystr list \<Rightarrow> pystr list \<Rightarrow> pystr list" where
  "files_loop [] fs = fs"
| "files_loop (line # lines) fs =
     files_loop lines
       (if str_in (lit ''|'') line then fs @ [strip (hd (split_on 124 line))] else fs)"

definition truncation_marker :: pystr where
  "truncation_marker = [10, 10] @ lit ''... (truncated)''"

text \<open>
  \<open>GitAnalyzer._parse_diff_stats\<close>. The budget \<open>max_chars\<close> is \<open>None\<close> or any integer;
  \<open>None\<close> and \<open>0\<close> are both false in the test \<open>if max_chars and ...\<close>. The two
  calls of \<open>int\<close> can raise, the first before the second, and both before the diff
  body is looked at.
\<close>

definition parse_diff_stats ::
  "digits \<Rightarrow> pystr \<Rightarrow> pystr \<Rightarrow> int option \<Rightarrow> error + DiffSummary" where
  "parse_diff_stats nd diff stat_output max_chars =
     (let fs = files_loop (split_on 10 (strip stat_output)) [] in
      case search_count nd (lit ''insertion'') (lit ''(+)'') stat_output of
        Inl e \<Rightarrow> Inl e
      | Inr additions \<Rightarrow>
          (case search_count nd (lit ''deletion'') (lit ''(-)'') stat_output of
             Inl e \<Rightarrow> Inl e
           | Inr deletions \<Rightarrow>
               let diff_text = (case max_chars of
                                  None \<Rightarrow> diff
                                | Some m \<Rightarrow>
                                    if m \<noteq> 0 \<and> int (length diff) > m
                                    then slice_to diff m @ truncation_marker
                                    else diff)
               in Inr \<lparr>files = fs, total_additions = additions, total_deletions = deletions,
                       raw_diff = diff_text\<rparr>))"

section \<open>Commit log\<close>

record 'd CommitInfo =
  hash :: pystr
  author :: pystr
  email :: pystr
  date :: 'd
  subject :: pystr
  body :: pystr
  files_changed :: int
  insertions :: int
  deletions :: int

text \<open>\<open>s.replace(' ', 'T', 1)\<close> and \<open>s.replace(' ', '')\<close>.\<close>

fun replace_first_space :: "pystr \<Rightarrow> pystr" where
  "replace_first_space [] = []"
| "replace_first_space (c # cs) = (if c = 32 then 84 # cs else c # replace_first_space cs)"

definition remove_spaces :: "pystr \<Rightarrow> pystr" where
  "remove_spaces s = filter (\<lambda>c. c \<noteq> 32) s"

text \<open>The text handed to \<open>datetime.fromisoformat\<close> for the date field.\<close>

definition iso_text :: "pystr \<Rightarrow> pystr" where
  "iso_text field = remove_spaces (replace_first_space (strip field))"

definition make_commit :: "pystr list \<Rightarrow> 'd \<Rightarrow> 'd CommitInfo" where
  "make_commit parts d =
     \<lparr>hash = parts ! 0, author = parts ! 1, email = parts ! 2, date = d,
      subject = parts ! 4, body = (if length parts > 5 then parts ! 5 else []),
      files_changed = 0, insertions = 0, deletions = 0\<rparr>"

text \<open>
  The loop of \<open>get_recent_commits\<close> over the entries. \<open>fromiso\<close> is
  \<open>datetime.fromisoformat\<close>, \<open>None\<close> where it raises \<open>ValueError\<close>; \<open>clock\<close> is the
  sequence of readings of \<open>datetime.now()\<close>, and the state counts the readings taken.
\<close>

fun commits_loop ::
  "(pystr \<Rightarrow> 'd option) \<Rightarrow> (nat \<Rightarrow> 'd) \<Rightarrow> pystr list
     \<Rightarrow> 'd CommitInfo list \<times> nat \<Rightarrow> 'd CommitInfo list \<times> nat" where
  "commits_loop fromiso clock [] st = st"
| "commits_loop fromiso clock (entry # entries) (commits, t) =
     (let e = strip entry in
      if e = [] then commits_loop fromiso clock entries (commits, t)
      else
        let parts = split_on 0 e in
        if length parts \<ge> 5 then
          (case fromiso (iso_text (parts ! 3)) of
             Some d \<Rightarrow> commits_loop fromiso clock entries (commits @ [make_commit parts d], t)
           | None \<Rightarrow>
               commits_loop fromiso clock entries
                 (commits @ [make_commit parts (clock t)], Suc t))
        else commits_loop fromiso clock entries (commits, t))"

text \<open>What \<open>get_recent_commits\<close> does with the text of \<open>git log\<close>.\<close>

definition parse_commits ::
  "(pystr \<Rightarrow> 'd option) \<Rightarrow> (nat \<Rightarrow> 'd) \<Rightarrow> pystr \<Rightarrow> 'd CommitInfo list" where
  "parse_commits fromiso clock output =
     (if strip output = [] then []
      else fst (commits_loop fromiso clock (split_on 1 output) ([], 0)))"

definition format_str :: pystr where
  "format_str = lit ''%H%x00%an%x00%ae%x00%ad%x00%s%x00%b%x00%x01''"

text \<open>The arguments of the \<open>git log\<close> call.\<close>

definition log_args :: "int \<Rightarrow> pystr list" where
  "log_args days =
     [lit ''log'', lit ''--since='' @ str_int days @ lit '' days ago'',
      lit ''--pretty=format:'' @ format_str, lit ''--date=iso'']"

text \<open>\<open>GitAnalyzer.get_recent_commits\<close>.\<close>

definition get_recent_commits ::
  "subprocess \<Rightarrow> (pystr \<Rightarrow> 'd option) \<Rightarrow> (nat \<Rightarrow> 'd) \<Rightarrow> int \<Rightarrow> error + 'd CommitInfo list" where
  "get_recent_commits run fromiso clock days =
     (case run_git run (log_args days) of
        Inl e \<Rightarrow> Inl e
      | Inr output \<Rightarrow> Inr (parse_commits fromiso clock output))"

section \<open>The parsers as the specification words them\<close>

text \<open>
  The changed files of a diff-stat summary, read off the lines of the summary text
  itself: for each line that contains a vertical bar, the part before the first bar,
  trimmed, in input order.
\<close>

definition spec_files :: "pystr \<Rightarrow> pystr list" where
  "spec_files stat_output =
     map (\<lambda>line. strip (takeWhile (\<lambda>c. c \<noteq> 124) line))
       (filter (\<lambda>line. 124 \<in> set line) (split_on 10 stat_output))"

text \<open>
  A text of the form \<open><integer> insertion(s)(+)\<close> (for the noun \<open>insertion\<close> and the
  sign \<open>(+)\<close>): one or more digits, a space, the noun, an optional \<open>s\<close>, the sign.
\<close>

definition is_count_text :: "digits \<Rightarrow> pystr \<Rightarrow> pystr \<Rightarrow> pystr \<Rightarrow> bool" where
  "is_count_text nd noun sign sub =
     (\<exists>ds rest. sub = ds @ rest \<and> ds \<noteq> [] \<and> (\<forall>c\<in>set ds. digit_value nd c \<noteq> None) \<and>
        (rest = lit '' '' @ noun @ sign \<or> rest = lit '' '' @ noun @ lit ''s'' @ sign))"

text \<open>Some substring of the text has that form.\<close>

definition has_count_text :: "digits \<Rightarrow> pystr \<Rightarrow> pystr \<Rightarrow> pystr \<Rightarrow> bool" where
  "has_count_text nd noun sign s =
     (\<exists>pre sub post. s = pre @ sub @ post \<and> is_count_text nd noun sign sub)"

text \<open>
  The counts of a summary convert: the integer that the insertions pattern finds, and
  the one that the deletions pattern finds, has no more digits than \<open>int\<close> accepts.
\<close>

definition counts_convert :: "digits \<Rightarrow> pystr \<Rightarrow> bool" where
  "counts_convert nd stat_output =
     ((case re_search nd (lit ''insertion'') (lit ''(+)'') stat_output of
         None \<Rightarrow> True | Some ds \<Rightarrow> length ds \<le> int_max_str_digits) \<and>
      (case re_search nd (lit ''deletion'') (lit ''(-)'') stat_output of
         None \<Rightarrow> True | Some ds \<Rightarrow> length ds \<le> int_max_str_digits))"


text \<open>
  The three lists of a porcelain status text, read off the lines of the text itself:
  a line is staged when its character 0 is one of \<open>M A D R C\<close>, modified when its
  character 1 is \<open>M\<close>, untracked when its code is \<open>??\<close>; the path starts at character 3.
\<close>

definition spec_staged :: "pystr \<Rightarrow> pystr list" where
  "spec_staged status_output =
     map (drop 3)
       (filter (\<lambda>line. line \<noteq> [] \<and> hd line \<in> set (lit ''MADRC'')) (split_on 10 status_output))"

definition spec_modified :: "pystr \<Rightarrow> pystr list" where
  "spec_modified status_output =
     map (drop 3) (filter (\<lambda>line. take 1 (drop 1 line) = lit ''M'') (split_on 10 status_output))"

definition spec_untracked :: "pystr \<Rightarrow> pystr list" where
  "spec_untracked status_output =
     map (drop 3) (filter (\<lambda>line. take 2 line = lit ''??'') (split_on 10 status_output))"

text \<open>
  A log text of two commits as \<open>git log\<close> prints it for \<open>format_str\<close>: the fields of a
  record each end with the byte 0, the record ends with the byte 1, and a newline
  separates the records.
\<close>

definition example_log :: pystr where
  "example_log =
     lit ''a1b2c3'' @ [0] @ lit ''Ann Lee'' @ [0] @ lit ''ann@example.org'' @ [0] @
     lit ''2024-01-02 10:00:00 +0100'' @ [0] @ lit ''Fix parser'' @ [0] @ lit ''Details.'' @ [0, 1, 10] @
     lit ''d4e5f6'' @ [0] @ lit ''Bob Roy'' @ [0] @ lit ''bob@example.org'' @ [0] @
     lit ''yesterday'' @ [0] @ lit ''Add tests'' @ [0] @ [0, 1]"

section \<open>Facts about the string operations\<close>

lemma lit_simps [simp]: "lit [] = []" "lit (c # cs) = of_char c # lit cs"
  by (simp_all add: lit_def)

lemma split_on_not_Nil [simp]: "split_on sep s \<noteq> []"
  by (induction s) (auto split: list.splits)

lemma split_on_Cons:
  "split_on sep (c # cs) =
     (if c = sep then [] # split_on sep cs
      else (c # hd (split_on sep cs)) # tl (split_on sep cs))"
  by (cases "split_on sep cs") auto

lemma hd_split_on: "hd (split_on sep s) = takeWhile (\<lambda>c. c \<noteq> sep) s"
  by (induction s) (auto simp: split_on_Cons simp del: split_on.simps(2))

lemma split_on_no_sep: "sep \<notin> set s \<Longrightarrow> split_on sep s = [s]"
  by (induction s) auto

lemma length_split_on: "length (split_on sep s) = Suc (length (filter (\<lambda>c. c = sep) s))"
  by (induction s) (auto split: list.splits)

lemma split_on_pieces: "l \<in> set (split_on sep s) \<Longrightarrow> set l \<subseteq> set s \<and> sep \<notin> set l"
proof (induction s arbitrary: l)
  case Nil
  then show ?case by simp
next
  case (Cons c cs)
  obtain p ps where X: "split_on sep cs = p # ps" by (cases "split_on sep cs") auto
  show ?case
  proof (cases "c = sep")
    case True
    then have "l = [] \<or> l \<in> set (split_on sep cs)" using Cons.prems by simp
    then show ?thesis using Cons.IH by auto
  next
    case False
    then have "l = c # p \<or> l \<in> set ps" using Cons.prems X by simp
    moreover have "set p \<subseteq> set cs \<and> sep \<notin> set p" using Cons.IH[of p] X by simp
    moreover have "l \<in> set ps \<Longrightarrow> set l \<subseteq> set cs \<and> sep \<notin> set l" using Cons.IH[of l] X by simp
    ultimately show ?thesis using False by auto
  qed
qed

lemma split_on_append:
  "split_on sep (a @ b) =
     butlast (split_on sep a) @ [last (split_on sep a) @ hd (split_on sep b)] @ tl (split_on sep b)"
proof (induction a)
  case Nil
  then show ?case by simp
next
  case (Cons c cs)
  obtain p ps where X: "split_on sep cs = p # ps" by (cases "split_on sep cs") auto
  show ?case
  proof (cases "c = sep")
    case True
    then show ?thesis using Cons.IH by simp
  next
    case False
    then show ?thesis using Cons.IH X by (cases ps) auto
  qed
qed

lemma last_split_on: "last (split_on sep s) = rev (takeWhile (\<lambda>c. c \<noteq> sep) (rev s))"
proof (induction s rule: rev_induct)
  case Nil
  then show ?case by simp
next
  case (snoc x xs)
  have "split_on sep (xs @ [x]) =
          butlast (split_on sep xs) @ [last (split_on sep xs) @ hd (split_on sep [x])] @ tl (split_on sep [x])"
    by (rule split_on_append)
  then show ?case using snoc.IH by (cases "x = sep") auto
qed

lemma lstrip_decomp: "takeWhile isspace s @ lstrip s = s"
  by (simp add: lstrip_def)

lemma rstrip_decomp: "rstrip s @ rev (takeWhile isspace (rev s)) = s"
proof -
  have "rev (takeWhile isspace (rev s) @ dropWhile isspace (rev s)) = s" by simp
  then show ?thesis unfolding rstrip_def rev_append .
qed

lemma lstrip_ws_append: "\<forall>c\<in>set w. isspace c \<Longrightarrow> lstrip (w @ x) = lstrip x"
  by (simp add: lstrip_def dropWhile_append2)

lemma rstrip_append_ws: "\<forall>c\<in>set w. isspace c \<Longrightarrow> rstrip (x @ w) = rstrip x"
proof -
  assume "\<forall>c\<in>set w. isspace c"
  then have "dropWhile isspace (rev w @ rev x) = dropWhile isspace (rev x)"
    by (intro dropWhile_append2) simp
  then show ?thesis by (simp add: rstrip_def)
qed

lemma lstrip_id: "s = [] \<or> \<not> isspace (hd s) \<Longrightarrow> lstrip s = s"
  by (cases s) (auto simp: lstrip_def)

lemma rstrip_id: "s = [] \<or> \<not> isspace (last s) \<Longrightarrow> rstrip s = s"
  by (cases s rule: rev_cases) (auto simp: rstrip_def)

lemma lstrip_hd: "lstrip s \<noteq> [] \<Longrightarrow> \<not> isspace (hd (lstrip s))"
  unfolding lstrip_def by (rule hd_dropWhile)

lemma rstrip_last: "rstrip s \<noteq> [] \<Longrightarrow> \<not> isspace (last (rstrip s))"
  unfolding rstrip_def by (simp add: last_rev hd_dropWhile)

lemma rstrip_hd: "rstrip s \<noteq> [] \<Longrightarrow> hd (rstrip s) = hd s"
  by (metis hd_append2 rstrip_decomp)

lemma strip_hd: "strip s \<noteq> [] \<Longrightarrow> \<not> isspace (hd (strip s))"
proof -
  assume a: "strip s \<noteq> []"
  then have "lstrip s \<noteq> []" by (auto simp: strip_def rstrip_def)
  then have "\<not> isspace (hd (lstrip s))" by (rule lstrip_hd)
  moreover have "hd (strip s) = hd (lstrip s)" using a unfolding strip_def by (rule rstrip_hd)
  ultimately show ?thesis by simp
qed

lemma strip_last: "strip s \<noteq> [] \<Longrightarrow> \<not> isspace (last (strip s))"
  unfolding strip_def by (rule rstrip_last)

lemma strip_decomp:
  "\<exists>w1 w2. s = w1 @ strip s @ w2 \<and> (\<forall>c\<in>set w1. isspace c) \<and> (\<forall>c\<in>set w2. isspace c)"
proof -
  let ?w1 = "takeWhile isspace s" and ?w2 = "rev (takeWhile isspace (rev (lstrip s)))"
  have "s = ?w1 @ strip s @ ?w2"
    unfolding strip_def rstrip_decomp lstrip_decomp ..
  moreover have "\<forall>c\<in>set ?w1. isspace c" by (auto dest: set_takeWhileD)
  moreover have "\<forall>c\<in>set ?w2. isspace c" by (auto dest: set_takeWhileD)
  ultimately show ?thesis by blast
qed


lemma strip_append_ws:
  assumes "\<forall>c\<in>set w. isspace c"
  shows "strip (x @ w) = strip x"
proof (cases "\<forall>c\<in>set x. isspace c")
  case True
  then have "lstrip (x @ w) = []" "lstrip x = []" using assms by (auto simp: lstrip_def)
  then show ?thesis by (simp add: strip_def)
next
  case False
  then have "lstrip (x @ w) = lstrip x @ w" by (auto simp: lstrip_def dropWhile_append)
  then show ?thesis using assms by (simp add: strip_def rstrip_append_ws)
qed

lemma strip_empty_iff: "strip s = [] \<longleftrightarrow> (\<forall>c\<in>set s. isspace c)"
proof
  assume "strip s = []"
  then show "\<forall>c\<in>set s. isspace c" using strip_decomp[of s] by auto
next
  assume "\<forall>c\<in>set s. isspace c"
  then have "lstrip s = []" by (auto simp: lstrip_def)
  then show "strip s = []" by (simp add: strip_def rstrip_def)
qed

lemma str_in_iff: "str_in sub s \<longleftrightarrow> (\<exists>pre post. s = pre @ sub @ post)"
proof (induction s)
  case Nil
  then show ?case by auto
next
  case (Cons c cs)
  show ?case
  proof
    assume "str_in sub (c # cs)"
    then consider "prefix sub (c # cs)" | "str_in sub cs" by auto
    then show "\<exists>pre post. c # cs = pre @ sub @ post"
    proof cases
      case 1
      then obtain post where "c # cs = sub @ post" by (auto simp: prefix_def)
      then have "c # cs = [] @ sub @ post" by simp
      then show ?thesis by blast
    next
      case 2
      then obtain pre post where "cs = pre @ sub @ post" using Cons.IH by blast
      then have "c # cs = (c # pre) @ sub @ post" by simp
      then show ?thesis by blast
    qed
  next
    assume "\<exists>pre post. c # cs = pre @ sub @ post"
    then obtain pre post where e: "c # cs = pre @ sub @ post" by blast
    show "str_in sub (c # cs)"
    proof (cases pre)
      case Nil
      then have "prefix sub (c # cs)" using e by (simp add: prefix_def)
      then show ?thesis by simp
    next
      case (Cons p ps)
      then have "cs = ps @ sub @ post" using e by simp
      then have "str_in sub cs" using Cons.IH by blast
      then show ?thesis by simp
    qed
  qed
qed

lemma str_in_single: "str_in [c] s \<longleftrightarrow> c \<in> set s"
  by (induction s) auto

section \<open>The command runner: fatal errors\<close>

text \<open>
  C6, as stated, fails on the code: the runner looks for the fatal marker only when the
  exit code is not zero. Here the process exits with code 0 and its standard error
  contains the marker, and the runner returns the standard output.
\<close>

theorem run_git_fatal_zero_exit_counterexample:
  "str_in (lit ''fatal:'') (lit ''fatal: bad revision'') \<and>
   run_git (\<lambda>args. Inr \<lparr>returncode = 0, stdout = lit ''ok'', stderr = lit ''fatal: bad revision''\<rparr>)
     [lit ''status''] = Inr (lit ''ok'')"
  by (simp add: run_git_def)

text \<open>
  C6, amended: for every argument vector on which the process completes, the runner
  fails with the fatal-command error (a \<open>RuntimeError\<close> whose message is the trimmed
  standard error) exactly when the exit code is not zero and the standard error contains
  the fatal marker; when the exit code is zero, or the standard error lacks the marker,
  it returns the captured standard output without raising.
\<close>

theorem run_git_fatal_iff:
  assumes "run (lit ''git'' # args) = Inr result"
  shows "(returncode result \<noteq> 0 \<and> str_in (lit ''fatal:'') (stderr result) \<longrightarrow>
           run_git run args = Inl (RuntimeError (lit ''Git error: '' @ strip (stderr result)))) \<and>
         (returncode result = 0 \<or> \<not> str_in (lit ''fatal:'') (stderr result) \<longrightarrow>
           run_git run args = Inr (stdout result))"
  using assms by (cases "stderr result") (auto simp: run_git_def)

theorem run_git_fatal_iff_witness:
  "run_git (\<lambda>args. Inr \<lparr>returncode = 128, stdout = [], stderr = lit ''fatal: bad revision''\<rparr>)
     [lit ''log''] = Inl (RuntimeError (lit ''Git error: fatal: bad revision'')) \<and>
   run_git (\<lambda>args. Inr \<lparr>returncode = 1, stdout = lit ''partial'', stderr = lit ''warning: x''\<rparr>)
     [lit ''log''] = Inr (lit ''partial'') \<and>
   run_git (\<lambda>args. Inr \<lparr>returncode = 0, stdout = lit ''ok'', stderr = lit ''fatal: bad revision''\<rparr>)
     [lit ''log''] = Inr (lit ''ok'')"
  using
    run_git_fatal_iff [of "\<lambda>args. Inr \<lparr>returncode = 128, stdout = [], stderr = lit ''fatal: bad revision''\<rparr>"
      "[lit ''log'']" "\<lparr>returncode = 128, stdout = [], stderr = lit ''fatal: bad revision''\<rparr>"]
    run_git_fatal_iff [of "\<lambda>args. Inr \<lparr>returncode = 1, stdout = lit ''partial'', stderr = lit ''warning: x''\<rparr>"
      "[lit ''log'']" "\<lparr>returncode = 1, stdout = lit ''partial'', stderr = lit ''warning: x''\<rparr>"]
    run_git_fatal_iff [of "\<lambda>args. Inr \<lparr>returncode = 0, stdout = lit ''ok'', stderr = lit ''fatal: bad revision''\<rparr>"
      "[lit ''log'']" "\<lparr>returncode = 0, stdout = lit ''ok'', stderr = lit ''fatal: bad revision''\<rparr>"]
  by (simp add: strip_def lstrip_def rstrip_def isspace_def)

section \<open>Provider selection\<close>

text \<open>
  C8 does not hold of the code. The error says that no API key is configured, and
  \<open>validate\<close> is documented to check that at least one API key is configured; the claim
  says the same. With the preference \<open>gemini\<close>, no Gemini key and an OpenRouter key set,
  a backend has a credential and selection raises that error all the same: the fallback
  to the other backend's key is taken only under the preference \<open>auto\<close>. With the
  preference written \<open>Auto\<close> and both keys set it raises as well.
\<close>

theorem get_active_provider_key_present:
  "openrouter_api_key
     \<lparr>gemini_api_key = [], openrouter_api_key = lit ''sk-or-v1'', default_days = 7,
      max_diff_chars = 8000, gemini_model = lit ''gemini-flash-latest'',
      openrouter_model = lit ''xiaomi/mimo-v2-flash:free'', preferred_provider = lit ''gemini'',
      slack_webhook_url = []\<rparr> \<noteq> [] \<and>
   get_active_provider
     \<lparr>gemini_api_key = [], openrouter_api_key = lit ''sk-or-v1'', default_days = 7,
      max_diff_chars = 8000, gemini_model = lit ''gemini-flash-latest'',
      openrouter_model = lit ''xiaomi/mimo-v2-flash:free'', preferred_provider = lit ''gemini'',
      slack_webhook_url = []\<rparr> = Inl (ValueError no_key_message) \<and>
   get_active_provider
     \<lparr>gemini_api_key = lit ''AIza'', openrouter_api_key = lit ''sk-or-v1'', default_days = 7,
      max_diff_chars = 8000, gemini_model = lit ''gemini-flash-latest'',
      openrouter_model = lit ''xiaomi/mimo-v2-flash:free'', preferred_provider = lit ''Auto'',
      slack_webhook_url = []\<rparr> = Inl (ValueError no_key_message)"
  by (simp add: get_active_provider_def)

text \<open>
  The part of the claim the code does keep: with no credential for any backend,
  selection raises the error, whatever the preference.
\<close>

lemma get_active_provider_no_keys:
  "gemini_api_key cfg = [] \<Longrightarrow> openrouter_api_key cfg = [] \<Longrightarrow>
     get_active_provider cfg = Inl (ValueError no_key_message)"
  by (simp add: get_active_provider_def)

text \<open>
  C9: under the automatic preference, when both backends' credentials are set selection
  returns OpenRouter (the backend with a free tier); when only one credential is set it
  returns that backend.
\<close>

theorem get_active_provider_auto:
  assumes "preferred_provider cfg = lit ''auto''"
  shows "(gemini_api_key cfg \<noteq> [] \<and> openrouter_api_key cfg \<noteq> [] \<longrightarrow>
            get_active_provider cfg = Inr OPENROUTER) \<and>
         (gemini_api_key cfg = [] \<and> openrouter_api_key cfg \<noteq> [] \<longrightarrow>
            get_active_provider cfg = Inr OPENROUTER) \<and>
         (gemini_api_key cfg \<noteq> [] \<and> openrouter_api_key cfg = [] \<longrightarrow>
            get_active_provider cfg = Inr GEMINI)"
  using assms by (simp add: get_active_provider_def)

theorem get_active_provider_auto_witness:
  "get_active_provider
     \<lparr>gemini_api_key = lit ''AIza'', openrouter_api_key = lit ''sk-or-v1'', default_days = 7,
      max_diff_chars = 8000, gemini_model = lit ''gemini-flash-latest'',
      openrouter_model = lit ''xiaomi/mimo-v2-flash:free'', preferred_provider = lit ''auto'',
      slack_webhook_url = []\<rparr> = Inr OPENROUTER \<and>
   get_active_provider
     \<lparr>gemini_api_key = [], openrouter_api_key = lit ''sk-or-v1'', default_days = 7,
      max_diff_chars = 8000, gemini_model = lit ''gemini-flash-latest'',
      openrouter_model = lit ''xiaomi/mimo-v2-flash:free'', preferred_provider = lit ''auto'',
      slack_webhook_url = []\<rparr> = Inr OPENROUTER \<and>
   get_active_provider
     \<lparr>gemini_api_key = lit ''AIza'', openrouter_api_key = [], default_days = 7,
      max_diff_chars = 8000, gemini_model = lit ''gemini-flash-latest'',
      openrouter_model = lit ''xiaomi/mimo-v2-flash:free'', preferred_provider = lit ''auto'',
      slack_webhook_url = []\<rparr> = Inr GEMINI"
  using
    get_active_provider_auto [of
      "\<lparr>gemini_api_key = lit ''AIza'', openrouter_api_key = lit ''sk-or-v1'', default_days = 7,
        max_diff_chars = 8000, gemini_model = lit ''gemini-flash-latest'',
        openrouter_model = lit ''xiaomi/mimo-v2-flash:free'', preferred_provider = lit ''auto'',
        slack_webhook_url = []\<rparr>"]
    get_active_provider_auto [of
      "\<lparr>gemini_api_key = [], openrouter_api_key = lit ''sk-or-v1'', default_days = 7,
        max_diff_chars = 8000, gemini_model = lit ''gemini-flash-latest'',
        openrouter_model = lit ''xiaomi/mimo-v2-flash:free'', preferred_provider = lit ''auto'',
        slack_webhook_url = []\<rparr>"]
    get_active_provider_auto [of
      "\<lparr>gemini_api_key = lit ''AIza'', openrouter_api_key = [], default_days = 7,
        max_diff_chars = 8000, gemini_model = lit ''gemini-flash-latest'',
        openrouter_model = lit ''xiaomi/mimo-v2-flash:free'', preferred_provider = lit ''auto'',
        slack_webhook_url = []\<rparr>"]
  by simp

section \<open>Facts about the diff-stat parser\<close>



lemma newline_pieces_space:
  assumes "\<forall>c\<in>set w. isspace c" and "l \<in> set (split_on 10 w)"
  shows "\<forall>c\<in>set l. isspace c"
  using split_on_pieces[OF assms(2)] assms(1) by auto





lemma take_digits_split:
  "take_digits nd s = (ds, rest) \<Longrightarrow>
     \<exists>dcs. s = dcs @ rest \<and> length dcs = length ds \<and> (\<forall>c\<in>set dcs. digit_value nd c \<noteq> None)"
proof (induction s arbitrary: ds rest)
  case Nil
  then show ?case by simp
next
  case (Cons c cs)
  show ?case
  proof (cases "digit_value nd c")
    case None
    then show ?thesis using Cons.prems by simp
  next
    case (Some v)
    obtain ds' rest' where t: "take_digits nd cs = (ds', rest')" by (cases "take_digits nd cs")
    then obtain dcs where "cs = dcs @ rest'" "length dcs = length ds'"
      "\<forall>c\<in>set dcs. digit_value nd c \<noteq> None" using Cons.IH by blast
    moreover have "ds = v # ds'" "rest = rest'" using Cons.prems Some t by simp_all
    ultimately have "c # cs = (c # dcs) @ rest \<and> length (c # dcs) = length ds \<and>
      (\<forall>x\<in>set (c # dcs). digit_value nd x \<noteq> None)" using Some by simp
    then show ?thesis by blast
  qed
qed

lemma match_group_text:
  assumes "match_group nd noun sign s = Some n"
  shows "\<exists>sub post. s = sub @ post \<and> is_count_text nd noun sign sub"
proof -
  obtain ds rest where t: "take_digits nd s = (ds, rest)" by (cases "take_digits nd s")
  with assms have ne: "ds \<noteq> []"
    and p: "prefix (lit '' '' @ noun @ lit ''s'' @ sign) rest \<or> prefix (lit '' '' @ noun @ sign) rest"
    by (auto simp: match_group_def split: if_splits)
  obtain dcs where s: "s = dcs @ rest" and l: "length dcs = length ds"
    and dg: "\<forall>c\<in>set dcs. digit_value nd c \<noteq> None"
    using take_digits_split[OF t] by blast
  from p obtain word post where r: "rest = word @ post"
    and w: "word = lit '' '' @ noun @ sign \<or> word = lit '' '' @ noun @ lit ''s'' @ sign"
    unfolding prefix_def by blast
  have "dcs \<noteq> []" using ne l by auto
  then have "is_count_text nd noun sign (dcs @ word)"
    unfolding is_count_text_def using dg w by blast
  moreover have "s = (dcs @ word) @ post" using s r by simp
  ultimately show ?thesis by blast
qed




lemma split_on_line: "sep \<notin> set l \<Longrightarrow> split_on sep (l @ sep # r) = l # split_on sep r"
  by (induction l) auto

lemma is_count_text_no_newline:
  assumes "is_count_text nd noun sign sub" and "10 \<notin> set noun" and "10 \<notin> set sign"
  shows "10 \<notin> set sub"
proof -
  obtain ds rest where sub: "sub = ds @ rest" and dg: "\<forall>c\<in>set ds. digit_value nd c \<noteq> None"
    and rest: "rest = lit '' '' @ noun @ sign \<or> rest = lit '' '' @ noun @ lit ''s'' @ sign"
    using assms(1) unfolding is_count_text_def by blast
  have "digit_value nd 10 = None" by (simp add: digit_value_def)
  then have "10 \<notin> set ds" using dg by blast
  moreover have "10 \<notin> set rest" using rest assms(2,3) by auto
  ultimately show ?thesis using sub by simp
qed

lemma prefix_before:
  assumes "xs @ ys = as @ x # bs" and "x \<notin> set xs"
  shows "\<exists>zs. as = xs @ zs"
proof -
  from assms(1) obtain us where
    "(xs = as @ us \<and> us @ ys = x # bs) \<or> (xs @ us = as \<and> ys = us @ x # bs)"
    unfolding append_eq_append_conv2 by blast
  then show ?thesis
  proof
    assume a: "xs = as @ us \<and> us @ ys = x # bs"
    then have "us = []" using assms(2) by (cases us) auto
    then show ?thesis using a by simp
  next
    assume "xs @ us = as \<and> ys = us @ x # bs"
    then show ?thesis by blast
  qed
qed

lemma match_group_line:
  assumes "\<not> has_count_text nd noun sign l" and "10 \<notin> set noun" and "10 \<notin> set sign"
  shows "match_group nd noun sign (l @ 10 # r) = None"
proof (cases "match_group nd noun sign (l @ 10 # r)")
  case None
  then show ?thesis .
next
  case (Some n)
  then obtain sub post where e: "l @ 10 # r = sub @ post" and c: "is_count_text nd noun sign sub"
    using match_group_text by blast
  have "10 \<notin> set sub" using is_count_text_no_newline[OF c assms(2,3)] .
  then obtain zs where "l = sub @ zs" using prefix_before[OF e[symmetric]] by blast
  then have "l = [] @ sub @ zs" by simp
  then have "has_count_text nd noun sign l" unfolding has_count_text_def using c by blast
  then show ?thesis using assms(1) by simp
qed

lemma has_count_text_Cons:
  assumes "has_count_text nd noun sign cs"
  shows "has_count_text nd noun sign (c # cs)"
proof -
  obtain pre sub post where "cs = pre @ sub @ post" "is_count_text nd noun sign sub"
    using assms unfolding has_count_text_def by blast
  then have "c # cs = (c # pre) @ sub @ post \<and> is_count_text nd noun sign sub" by simp
  then show ?thesis unfolding has_count_text_def by blast
qed

lemma re_search_skip_line:
  assumes "\<not> has_count_text nd noun sign l" and "10 \<notin> set noun" and "10 \<notin> set sign"
  shows "re_search nd noun sign (l @ 10 # r) = re_search nd noun sign r"
  using assms(1)
proof (induction l)
  case Nil
  then have "match_group nd noun sign ([] @ 10 # r) = None" using assms(2,3) by (rule match_group_line)
  then show ?case by simp
next
  case (Cons c cs)
  have "match_group nd noun sign ((c # cs) @ 10 # r) = None"
    using Cons.prems assms(2,3) by (rule match_group_line)
  moreover have "\<not> has_count_text nd noun sign cs" using Cons.prems has_count_text_Cons by blast
  ultimately show ?case using Cons.IH by simp
qed

lemma re_search_skip_spaces:
  "\<forall>c\<in>set sp. c = 32 \<Longrightarrow> re_search nd noun sign (sp @ r) = re_search nd noun sign r"
  by (induction sp) (simp_all add: match_group_def digit_value_def)

lemma spec_files_two_lines:
  assumes "10 \<notin> set l1" and "10 \<notin> set l2" and "124 \<in> set l1" and "124 \<in> set l2"
    and "124 \<notin> set r"
  shows "spec_files (l1 @ 10 # l2 @ 10 # r) =
           [strip (takeWhile (\<lambda>c. c \<noteq> 124) l1), strip (takeWhile (\<lambda>c. c \<noteq> 124) l2)]"
proof -
  have "split_on 10 (l1 @ 10 # l2 @ 10 # r) = l1 # l2 # split_on 10 r"
    using assms(1,2) by (simp add: split_on_line)
  moreover have "filter (\<lambda>line. 124 \<in> set line) (split_on 10 r) = []"
    using split_on_pieces[of _ 10 r] assms(5) by (auto simp: filter_empty_conv)
  ultimately show ?thesis using assms(3,4) by (simp add: spec_files_def)
qed




lemma parse_diff_stats_Inr:
  "parse_diff_stats nd d s m = Inr r \<longleftrightarrow>
     (\<exists>a b. search_count nd (lit ''insertion'') (lit ''(+)'') s = Inr a \<and>
            search_count nd (lit ''deletion'') (lit ''(-)'') s = Inr b \<and>
            r = \<lparr>files = files_loop (split_on 10 (strip s)) [], total_additions = a,
                 total_deletions = b,
                 raw_diff = (case m of None \<Rightarrow> d
                             | Some k \<Rightarrow> if k \<noteq> 0 \<and> int (length d) > k
                                         then slice_to d k @ truncation_marker else d)\<rparr>)"
  by (auto simp: parse_diff_stats_def Let_def split: sum.splits)

lemma search_count_returns:
  "(\<exists>a. search_count nd noun sign s = Inr a) \<longleftrightarrow>
     (case re_search nd noun sign s of None \<Rightarrow> True | Some ds \<Rightarrow> length ds \<le> int_max_str_digits)"
  by (auto simp: search_count_def py_int_def split: option.splits)


lemma parse_diff_stats_returns:
  "(\<exists>r. parse_diff_stats nd d s m = Inr r) \<longleftrightarrow> counts_convert nd s"
  unfolding parse_diff_stats_Inr counts_convert_def
  using search_count_returns[of nd "lit ''insertion''" "lit ''(+)''" s]
    search_count_returns[of nd "lit ''deletion''" "lit ''(-)''" s]
  by blast




section \<open>Truncation of the diff body\<close>

text \<open>
  C4: for every diff body and every positive budget, on every call of the parser that
  returns, a body no longer than the budget (also one of exactly the budget's length) is
  returned unchanged, and a longer body is returned as its first budget characters
  followed by the truncation marker. The call returns exactly when the counts of the
  summary convert, whatever the body and the budget are.
\<close>

theorem parse_diff_stats_truncation:
  assumes "0 < m"
  shows "(parse_diff_stats nd d stat_output (Some m) = Inr r \<longrightarrow>
            raw_diff r = (if int (length d) \<le> m then d else take (nat m) d @ truncation_marker)) \<and>
         ((\<exists>r. parse_diff_stats nd d stat_output (Some m) = Inr r) \<longleftrightarrow>
            counts_convert nd stat_output)"
proof (intro conjI impI)
  assume "parse_diff_stats nd d stat_output (Some m) = Inr r"
  then show "raw_diff r = (if int (length d) \<le> m then d else take (nat m) d @ truncation_marker)"
    using assms by (auto simp: parse_diff_stats_Inr slice_to_def)
next
  show "(\<exists>r. parse_diff_stats nd d stat_output (Some m) = Inr r) \<longleftrightarrow>
          counts_convert nd stat_output"
    by (rule parse_diff_stats_returns)
qed

theorem parse_diff_stats_truncation_witness:
  "(\<exists>r. parse_diff_stats (\<lambda>c. None) (replicate 9000 120) [] (Some 8000) = Inr r \<and>
        raw_diff r = replicate 8000 120 @ truncation_marker) \<and>
   (\<exists>r. parse_diff_stats (\<lambda>c. None) (replicate 8000 120) [] (Some 8000) = Inr r \<and>
        raw_diff r = replicate 8000 120)"
proof -
  have c: "counts_convert (\<lambda>c. None) []"
    by (simp add: counts_convert_def match_group_def)
  obtain r1 where r1: "parse_diff_stats (\<lambda>c. None) (replicate 9000 120) [] (Some 8000) = Inr r1"
    using parse_diff_stats_truncation [of 8000 "\<lambda>c. None" "replicate 9000 120" "[]", THEN conjunct2] c
    by auto
  have "raw_diff r1 = replicate 8000 120 @ truncation_marker"
    using parse_diff_stats_truncation [of 8000 "\<lambda>c. None" "replicate 9000 120" "[]" r1, THEN conjunct1]
      r1 by simp
  then have long: "\<exists>r. parse_diff_stats (\<lambda>c. None) (replicate 9000 120) [] (Some 8000) = Inr r \<and>
        raw_diff r = replicate 8000 120 @ truncation_marker"
    using r1 by blast
  obtain r2 where r2: "parse_diff_stats (\<lambda>c. None) (replicate 8000 120) [] (Some 8000) = Inr r2"
    using parse_diff_stats_truncation [of 8000 "\<lambda>c. None" "replicate 8000 120" "[]", THEN conjunct2] c
    by auto
  have "raw_diff r2 = replicate 8000 120"
    using parse_diff_stats_truncation [of 8000 "\<lambda>c. None" "replicate 8000 120" "[]" r2, THEN conjunct1]
      r2 by simp
  then have exact: "\<exists>r. parse_diff_stats (\<lambda>c. None) (replicate 8000 120) [] (Some 8000) = Inr r \<and>
        raw_diff r = replicate 8000 120"
    using r2 by blast
  show ?thesis using long exact by (rule conjI)
qed

text \<open>
  C10: with a budget of zero, or with no budget, on every call of the parser that
  returns, the diff body is returned unchanged whatever its length. The call returns
  exactly when the counts of the summary convert.
\<close>

theorem parse_diff_stats_no_budget:
  "(parse_diff_stats nd d stat_output None = Inr r \<longrightarrow> raw_diff r = d) \<and>
   (parse_diff_stats nd d stat_output (Some 0) = Inr r' \<longrightarrow> raw_diff r' = d) \<and>
   ((\<exists>r. parse_diff_stats nd d stat_output None = Inr r) \<longleftrightarrow> counts_convert nd stat_output) \<and>
   ((\<exists>r. parse_diff_stats nd d stat_output (Some 0) = Inr r) \<longleftrightarrow> counts_convert nd stat_output)"
proof (intro conjI impI)
  assume "parse_diff_stats nd d stat_output None = Inr r"
  then show "raw_diff r = d" by (auto simp: parse_diff_stats_Inr)
next
  assume "parse_diff_stats nd d stat_output (Some 0) = Inr r'"
  then show "raw_diff r' = d" by (auto simp: parse_diff_stats_Inr)
next
  show "(\<exists>r. parse_diff_stats nd d stat_output None = Inr r) \<longleftrightarrow> counts_convert nd stat_output"
    by (rule parse_diff_stats_returns)
next
  show "(\<exists>r. parse_diff_stats nd d stat_output (Some 0) = Inr r) \<longleftrightarrow>
          counts_convert nd stat_output"
    by (rule parse_diff_stats_returns)
qed

theorem parse_diff_stats_no_budget_witness:
  "(\<exists>r. parse_diff_stats (\<lambda>c. None) (replicate 9000 120) [] None = Inr r \<and>
        raw_diff r = replicate 9000 120) \<and>
   (\<exists>r. parse_diff_stats (\<lambda>c. None) (replicate 9000 120) [] (Some 0) = Inr r \<and>
        raw_diff r = replicate 9000 120)"
proof -
  have c: "counts_convert (\<lambda>c. None) []"
    by (simp add: counts_convert_def match_group_def)
  obtain r1 where r1: "parse_diff_stats (\<lambda>c. None) (replicate 9000 120) [] None = Inr r1"
    using parse_diff_stats_no_budget [of "\<lambda>c. None" "replicate 9000 120" "[]",
        THEN conjunct2, THEN conjunct2, THEN conjunct1] c
    by auto
  have "raw_diff r1 = replicate 9000 120"
    using parse_diff_stats_no_budget [of "\<lambda>c. None" "replicate 9000 120" "[]" r1, THEN conjunct1]
      r1 by simp
  then have none: "\<exists>r. parse_diff_stats (\<lambda>c. None) (replicate 9000 120) [] None = Inr r \<and>
        raw_diff r = replicate 9000 120"
    using r1 by blast
  obtain r2 where r2: "parse_diff_stats (\<lambda>c. None) (replicate 9000 120) [] (Some 0) = Inr r2"
    using parse_diff_stats_no_budget [of "\<lambda>c. None" "replicate 9000 120" "[]",
        THEN conjunct2, THEN conjunct2, THEN conjunct2] c
    by auto
  have "raw_diff r2 = replicate 9000 120"
    using parse_diff_stats_no_budget [of "\<lambda>c. None" "replicate 9000 120" "[]" _ r2,
        THEN conjunct2, THEN conjunct1]
      r2 by simp
  then have zero: "\<exists>r. parse_diff_stats (\<lambda>c. None) (replicate 9000 120) [] (Some 0) = Inr r \<and>
        raw_diff r = replicate 9000 120"
    using r2 by blast
  show ?thesis using none zero by (rule conjI)
qed

section \<open>The diff-stat summary\<close>




section \<open>Facts about the status parser\<close>

lemma status_loop_untracked:
  assumes "\<forall>l\<in>set ls. l = [] \<or> take 2 l = lit ''??''"
  shows "\<exists>ut'. status_loop ls (sg, md, ut) = Inr (sg, md, ut')"
  using assms
proof (induction ls arbitrary: ut)
  case Nil
  then show ?case by simp
next
  case (Cons l ls)
  then have rest: "\<And>u. \<exists>ut'. status_loop ls (sg, md, u) = Inr (sg, md, ut')" by simp
  show ?case
  proof (cases "l = []")
    case True
    then show ?thesis using rest by simp
  next
    case False
    then have code: "take 2 l = [63, 63]" using Cons.prems by simp
    then have "status_loop (l # ls) (sg, md, ut) = status_loop ls (sg, md, ut @ [slice_from l 3])"
      using False by (simp add: slice_to_def Let_def)
    then show ?thesis using rest by simp
  qed
qed

lemma question_not_space: "\<not> isspace 63"
  by (simp add: isspace_def)

lemma untracked_lines_lead:
  assumes w: "\<forall>c\<in>set w. isspace c"
    and q: "\<forall>l\<in>set (split_on 10 (w @ t)). l = [] \<or> take 2 l = lit ''??''"
  shows "\<forall>l\<in>set (split_on 10 t). l = [] \<or> take 2 l = lit ''??''"
proof
  fix l
  assume l: "l \<in> set (split_on 10 t)"
  let ?W = "split_on 10 w" and ?T = "split_on 10 t"
  have sp: "split_on 10 (w @ t) = butlast ?W @ [last ?W @ hd ?T] @ tl ?T" by (rule split_on_append)
  have u: "\<forall>c\<in>set (last ?W). isspace c"
    using newline_pieces_space[OF w, of "last ?W"] by simp
  from l have "l = hd ?T \<or> l \<in> set (tl ?T)" by (cases ?T) auto
  then show "l = [] \<or> take 2 l = lit ''??''"
  proof
    assume "l \<in> set (tl ?T)"
    then show ?thesis using q sp by simp
  next
    assume h: "l = hd ?T"
    show ?thesis
    proof (cases "l = []")
      case True
      then show ?thesis by simp
    next
      case False
      then have t2: "take 2 (last ?W @ l) = [63, 63]" using q sp h by simp
      have "last ?W = []"
      proof (rule ccontr)
        assume "last ?W \<noteq> []"
        then obtain a r where ar: "last ?W = a # r" by (cases "last ?W") auto
        then have "a = 63" using t2 by simp
        moreover have "isspace a" using u ar by simp
        ultimately show False using question_not_space by simp
      qed
      then show ?thesis using t2 by simp
    qed
  qed
qed

lemma untracked_lines_trail:
  assumes w: "\<forall>c\<in>set w. isspace c"
    and q: "\<forall>l\<in>set (split_on 10 (t @ w)). l = [] \<or> take 2 l = lit ''??''"
  shows "\<forall>l\<in>set (split_on 10 t). l = [] \<or> take 2 l = lit ''??''"
proof
  fix l
  assume l: "l \<in> set (split_on 10 t)"
  let ?W = "split_on 10 w" and ?T = "split_on 10 t"
  have sp: "split_on 10 (t @ w) = butlast ?T @ [last ?T @ hd ?W] @ tl ?W" by (rule split_on_append)
  have u: "\<forall>c\<in>set (hd ?W). isspace c"
    using newline_pieces_space[OF w, of "hd ?W"] by simp
  from l have "l = last ?T \<or> l \<in> set (butlast ?T)" by (cases ?T rule: rev_cases) auto
  then show "l = [] \<or> take 2 l = lit ''??''"
  proof
    assume "l \<in> set (butlast ?T)"
    then show ?thesis using q sp by simp
  next
    assume h: "l = last ?T"
    show ?thesis
    proof (cases l)
      case Nil
      then show ?thesis by simp
    next
      case (Cons a r)
      then have t2: "take 2 (a # r @ hd ?W) = [63, 63]" using q sp h by simp
      have "r \<noteq> []"
      proof
        assume "r = []"
        then have "take 1 (hd ?W) = [63]" using t2 by simp
        then obtain v where "hd ?W = 63 # v" by (cases "hd ?W") auto
        then have "isspace 63" using u by simp
        then show False using question_not_space by simp
      qed
      then obtain b r' where "r = b # r'" by (cases r) auto
      then show ?thesis using t2 Cons by simp
    qed
  qed
qed

lemma untracked_lines_strip:
  assumes "\<forall>l\<in>set (split_on 10 s). l = [] \<or> take 2 l = lit ''??''"
  shows "\<forall>l\<in>set (split_on 10 (strip s)). l = [] \<or> take 2 l = lit ''??''"
proof -
  obtain w1 w2 where d: "s = w1 @ strip s @ w2"
    and w1: "\<forall>c\<in>set w1. isspace c" and w2: "\<forall>c\<in>set w2. isspace c"
    using strip_decomp[of s] by blast
  have "\<forall>l\<in>set (split_on 10 (w1 @ strip s @ w2)). l = [] \<or> take 2 l = lit ''??''"
    using assms d by simp
  then have "\<forall>l\<in>set (split_on 10 (strip s @ w2)). l = [] \<or> take 2 l = lit ''??''"
    using w1 by (rule untracked_lines_lead[rotated])
  then show ?thesis using w2 by (rule untracked_lines_trail[rotated])
qed

section \<open>The dirty flag\<close>

text \<open>
  C2: for every status the status query returns, \<open>is_dirty\<close> is true if and only if
  \<open>staged\<close> or \<open>modified\<close> is not empty; and when every non-empty line of the porcelain
  text is an untracked (\<open>??\<close>) line, the query returns a status with nothing staged,
  nothing modified and \<open>is_dirty\<close> false.
\<close>

theorem get_repo_status_is_dirty:
  "(get_repo_status run = Inr st \<longrightarrow>
      is_dirty st = (staged st \<noteq> [] \<or> modified st \<noteq> [])) \<and>
   (run_git run [lit ''status'', lit ''--porcelain''] = Inr out \<and>
    (\<forall>l\<in>set (split_on 10 out). l = [] \<or> take 2 l = lit ''??'') \<and>
    get_current_branch run = Inr b \<longrightarrow>
      (\<exists>ut. get_repo_status run =
         Inr \<lparr>staged = [], modified = [], untracked = ut, is_dirty = False, branch = b\<rparr>))"
proof (intro conjI impI)
  assume "get_repo_status run = Inr st"
  then show "is_dirty st = (staged st \<noteq> [] \<or> modified st \<noteq> [])"
    by (auto simp: get_repo_status_def py_bool_def py_or_def split: sum.splits prod.splits)
next
  assume a: "run_git run [lit ''status'', lit ''--porcelain''] = Inr out \<and>
    (\<forall>l\<in>set (split_on 10 out). l = [] \<or> take 2 l = lit ''??'') \<and>
    get_current_branch run = Inr b"
  then have "\<forall>l\<in>set (split_on 10 (strip out)). l = [] \<or> take 2 l = lit ''??''"
    using untracked_lines_strip by blast
  then obtain ut where "parse_status out = Inr ([], [], ut)"
    unfolding parse_status_def using status_loop_untracked by blast
  then have "get_repo_status run =
      Inr \<lparr>staged = [], modified = [], untracked = ut, is_dirty = False, branch = b\<rparr>"
    using a by (simp add: get_repo_status_def py_bool_def py_or_def)
  then show "\<exists>ut. get_repo_status run =
      Inr \<lparr>staged = [], modified = [], untracked = ut, is_dirty = False, branch = b\<rparr>"
    by blast
qed

theorem get_repo_status_is_dirty_witness:
  "get_repo_status
     (\<lambda>args. Inr \<lparr>returncode = 0,
        stdout = (if args = [lit ''git'', lit ''status'', lit ''--porcelain'']
                  then lit ''?? notes.txt'' @ [10] @ lit ''?? build/'' @ [10]
                  else lit ''main'' @ [10]),
        stderr = []\<rparr>)
   = Inr \<lparr>staged = [], modified = [], untracked = [lit ''notes.txt'', lit ''build/''],
          is_dirty = False, branch = lit ''main''\<rparr>"
proof -
  let ?run = "\<lambda>args. Inr \<lparr>returncode = 0,
        stdout = (if args = [lit ''git'', lit ''status'', lit ''--porcelain'']
                  then lit ''?? notes.txt'' @ [10] @ lit ''?? build/'' @ [10]
                  else lit ''main'' @ [10]),
        stderr = []\<rparr>"
  let ?out = "lit ''?? notes.txt'' @ [10] @ lit ''?? build/'' @ [10]"
  have r: "run_git ?run [lit ''status'', lit ''--porcelain''] = Inr ?out"
    by (simp add: run_git_def)
  have q: "\<forall>l\<in>set (split_on 10 ?out). l = [] \<or> take 2 l = lit ''??''"
    by simp
  have b: "get_current_branch ?run = Inr (lit ''main'')"
    by (simp add: get_current_branch_def run_git_def strip_def lstrip_def rstrip_def isspace_def)
  obtain ut where g: "get_repo_status ?run =
      Inr \<lparr>staged = [], modified = [], untracked = ut, is_dirty = False, branch = lit ''main''\<rparr>"
    using get_repo_status_is_dirty [of ?run _ ?out "lit ''main''"] r q b by blast
  have "parse_status ?out = Inr ([], [], [lit ''notes.txt'', lit ''build/''])"
    by (simp add: parse_status_def strip_def lstrip_def rstrip_def isspace_def
        slice_to_def slice_from_def)
  then have "get_repo_status ?run =
      Inr \<lparr>staged = [], modified = [], untracked = [lit ''notes.txt'', lit ''build/''],
           is_dirty = py_bool (py_or ([] :: pystr list) []), branch = lit ''main''\<rparr>"
    using r b by (simp add: get_repo_status_def)
  then have "ut = [lit ''notes.txt'', lit ''build/'']" using g by simp
  then show ?thesis using g by blast
qed

section \<open>The status lists\<close>

text \<open>
  On lines that are empty or have at least two characters the loop classifies every
  line by its code, as the comments in the source say: character 0 decides \<open>staged\<close>,
  character 1 decides \<open>modified\<close>, the code \<open>??\<close> decides \<open>untracked\<close>.
\<close>

lemma status_loop_classify:
  assumes "\<forall>l\<in>set ls. l = [] \<or> 2 \<le> length l"
  shows "status_loop ls (sg, md, ut) =
           Inr (sg @ map (drop 3) (filter (\<lambda>l. l \<noteq> [] \<and> hd l \<in> set (lit ''MADRC'')) ls),
                md @ map (drop 3) (filter (\<lambda>l. take 1 (drop 1 l) = lit ''M'') ls),
                ut @ map (drop 3) (filter (\<lambda>l. take 2 l = lit ''??'') ls))"
  using assms
proof (induction ls arbitrary: sg md ut)
  case Nil
  then show ?case by simp
next
  case (Cons l ls)
  then have rest: "\<forall>l\<in>set ls. l = [] \<or> 2 \<le> length l" by simp
  show ?case
  proof (cases l)
    case Nil
    then show ?thesis using Cons.IH[OF rest] by simp
  next
    case c1: (Cons a r)
    then obtain b r' where l: "l = a # b # r'" using Cons.prems by (cases r) auto
    have m: "str_in [a] (lit ''MADRC'') = (a \<in> set (lit ''MADRC''))" by (rule str_in_single)
    show ?thesis
      unfolding l status_loop.simps Cons.IH[OF rest]
      by (simp add: slice_to_def slice_from_def Let_def m del: str_in.simps lit_simps)
  qed
qed

lemma split_on_newlines: "split_on 10 (replicate k 10) = replicate (Suc k) []"
  by (induction k) simp_all

text \<open>
  So the parser agrees with the lists read off the input's own lines whenever the
  input has no whitespace at its start and, before its final newlines, none at its end.
\<close>

lemma parse_status_agrees:
  assumes t: "strip t = t" and two: "\<forall>l\<in>set (split_on 10 t). l = [] \<or> 2 \<le> length l"
  shows "parse_status (t @ replicate k 10) =
           Inr (spec_staged (t @ replicate k 10), spec_modified (t @ replicate k 10),
                spec_untracked (t @ replicate k 10))"
proof -
  have "\<forall>c\<in>set (replicate k 10). isspace c" by (simp add: isspace_def)
  then have s: "strip (t @ replicate k 10) = t" using t by (simp add: strip_append_ws)
  have "split_on 10 (t @ replicate k 10) =
          butlast (split_on 10 t) @ [last (split_on 10 t) @ []] @ replicate k []"
    unfolding split_on_append[of 10 t "replicate k 10"] split_on_newlines by simp
  then have lines: "split_on 10 (t @ replicate k 10) = split_on 10 t @ replicate k []" by simp
  show ?thesis
    unfolding parse_status_def s status_loop_classify[OF two] spec_staged_def spec_modified_def
      spec_untracked_def lines
    by simp
qed

lemma parse_status_scenario_A:
  "parse_status (lit ''M  file1.py'' @ [10] @ lit ''?? file2.py'' @ [10])
     = Inr ([lit ''file1.py''], [], [lit ''file2.py''])"
  by (simp add: parse_status_def strip_def lstrip_def rstrip_def isspace_def
      slice_to_def slice_from_def)

text \<open>
  C1 does not hold of the code for every porcelain input. \<open>git status --porcelain\<close>
  prints \<open> M file1.py\<close> for a file modified in the working tree only: character 0 is a
  space, character 1 is \<open>M\<close> and the path is \<open>file1.py\<close>, so the line is modified and
  not staged. The parser trims the whole text first, which removes the leading space of
  the first line, and reports \<open>ile1.py\<close> as staged and nothing as modified.
\<close>

theorem get_repo_status_leading_space:
  "get_repo_status
     (\<lambda>args. Inr \<lparr>returncode = 0,
        stdout = (if args = [lit ''git'', lit ''status'', lit ''--porcelain'']
                  then lit '' M file1.py'' @ [10]
                  else lit ''main'' @ [10]),
        stderr = []\<rparr>)
   = Inr \<lparr>staged = [lit ''ile1.py''], modified = [], untracked = [],
          is_dirty = True, branch = lit ''main''\<rparr> \<and>
   spec_staged (lit '' M file1.py'' @ [10]) = [] \<and>
   spec_modified (lit '' M file1.py'' @ [10]) = [lit ''file1.py''] \<and>
   spec_untracked (lit '' M file1.py'' @ [10]) = []"
  by (simp add: get_repo_status_def parse_status_def run_git_def get_current_branch_def
      strip_def lstrip_def rstrip_def isspace_def slice_to_def slice_from_def
      py_bool_def py_or_def spec_staged_def spec_modified_def spec_untracked_def)

section \<open>Facts about the commit-log parser\<close>

lemma zero_not_space: "\<forall>c\<in>set w. isspace c \<Longrightarrow> 0 \<notin> set w"
  by (auto simp: isspace_def)

lemma one_not_space: "\<forall>c\<in>set w. isspace c \<Longrightarrow> Suc 0 \<notin> set w"
  by (auto simp: isspace_def)

lemma fields_strip_decomp:
  "\<exists>w1 w2. (\<forall>c\<in>set w1. isspace c) \<and> (\<forall>c\<in>set w2. isspace c) \<and>
     split_on 0 e =
       (w1 @ hd (butlast (split_on 0 (strip e)) @ [last (split_on 0 (strip e)) @ w2])) #
       tl (butlast (split_on 0 (strip e)) @ [last (split_on 0 (strip e)) @ w2])"
proof -
  obtain w1 w2 where d: "e = w1 @ strip e @ w2"
    and w1: "\<forall>c\<in>set w1. isspace c" and w2: "\<forall>c\<in>set w2. isspace c"
    using strip_decomp[of e] by blast
  let ?T = "split_on 0 (strip e)"
  have s1: "split_on 0 w1 = [w1]" and s2: "split_on 0 w2 = [w2]"
    using w1 w2 by (simp_all add: split_on_no_sep zero_not_space)
  have x: "split_on 0 (strip e @ w2) = butlast ?T @ [last ?T @ w2]"
    unfolding split_on_append[of 0 "strip e" w2] s2 by simp
  have "split_on 0 (w1 @ strip e @ w2) =
          (w1 @ hd (split_on 0 (strip e @ w2))) # tl (split_on 0 (strip e @ w2))"
    unfolding split_on_append[of 0 w1 "strip e @ w2"] s1 by simp
  then have "split_on 0 e = (w1 @ hd (butlast ?T @ [last ?T @ w2])) # tl (butlast ?T @ [last ?T @ w2])"
    using d x by simp
  then show ?thesis using w1 w2 by blast
qed

lemma length_fields_strip: "length (split_on 0 (strip e)) = length (split_on 0 e)"
proof -
  obtain w1 w2 where
    "split_on 0 e =
       (w1 @ hd (butlast (split_on 0 (strip e)) @ [last (split_on 0 (strip e)) @ w2])) #
       tl (butlast (split_on 0 (strip e)) @ [last (split_on 0 (strip e)) @ w2])"
    using fields_strip_decomp[of e] by blast
  then have "length (split_on 0 e) = Suc (length (butlast (split_on 0 (strip e))))" by simp
  then show ?thesis by simp
qed

lemma first_field_strip:
  "hd (split_on 0 (strip e)) = [] \<or> \<not> isspace (hd (hd (split_on 0 (strip e))))"
proof (cases "hd (split_on 0 (strip e)) = []")
  case True
  then show ?thesis by simp
next
  case False
  then have ne: "takeWhile (\<lambda>c. c \<noteq> 0) (strip e) \<noteq> []" by (simp add: hd_split_on)
  then have "strip e \<noteq> []" by auto
  moreover have "hd (takeWhile (\<lambda>c. c \<noteq> 0) (strip e)) = hd (strip e)"
    using ne by (cases "strip e") (auto split: if_splits)
  ultimately show ?thesis using strip_hd[of e] by (simp add: hd_split_on)
qed

lemma last_field_strip:
  "last (split_on 0 (strip e)) = [] \<or> \<not> isspace (last (last (split_on 0 (strip e))))"
proof (cases "last (split_on 0 (strip e)) = []")
  case True
  then show ?thesis by simp
next
  case False
  then have ne: "takeWhile (\<lambda>c. c \<noteq> 0) (rev (strip e)) \<noteq> []" by (simp add: last_split_on)
  then have s: "strip e \<noteq> []" by auto
  have "hd (takeWhile (\<lambda>c. c \<noteq> 0) (rev (strip e))) = hd (rev (strip e))"
    using ne by (cases "rev (strip e)") (auto split: if_splits)
  then have "last (last (split_on 0 (strip e))) = last (strip e)"
    using ne s by (simp add: last_split_on last_rev hd_rev)
  then show ?thesis using strip_last[OF s] by simp
qed

lemma five_fields: "5 \<le> length xs \<Longrightarrow> \<exists>a b c d e r. xs = a # b # c # d # e # r"
  by (auto simp: eval_nat_numeral Suc_le_length_iff)

lemma fields_strip_nth:
  assumes "5 \<le> length (split_on 0 e)"
  shows "split_on 0 (strip e) ! 0 = lstrip (split_on 0 e ! 0) \<and>
         split_on 0 (strip e) ! 1 = split_on 0 e ! 1 \<and>
         split_on 0 (strip e) ! 2 = split_on 0 e ! 2 \<and>
         split_on 0 (strip e) ! 3 = split_on 0 e ! 3 \<and>
         split_on 0 (strip e) ! 4 =
           (if length (split_on 0 e) = 5 then rstrip (split_on 0 e ! 4) else split_on 0 e ! 4)"
proof -
  let ?T = "split_on 0 (strip e)"
  have "5 \<le> length ?T" using assms by (simp add: length_fields_strip)
  then obtain t0 t1 t2 t3 t4 r where T: "?T = t0 # t1 # t2 # t3 # t4 # r"
    using five_fields by blast
  obtain w1 w2 where w1: "\<forall>c\<in>set w1. isspace c" and w2: "\<forall>c\<in>set w2. isspace c"
    and F: "split_on 0 e = (w1 @ hd (butlast ?T @ [last ?T @ w2])) # tl (butlast ?T @ [last ?T @ w2])"
    using fields_strip_decomp[of e] by blast
  have t0: "t0 = [] \<or> \<not> isspace (hd t0)" using first_field_strip[of e] T by simp
  then have h: "lstrip (w1 @ t0) = t0" using w1 by (simp add: lstrip_ws_append lstrip_id)
  show ?thesis
  proof (cases "r = []")
    case True
    then have F5: "split_on 0 e = [w1 @ t0, t1, t2, t3, t4 @ w2]" using F T by simp
    have "t4 = [] \<or> \<not> isspace (last t4)" using last_field_strip[of e] T True by simp
    then have "rstrip (t4 @ w2) = t4" using w2 by (simp add: rstrip_append_ws rstrip_id)
    then show ?thesis using F5 T h by simp
  next
    case False
    then have "split_on 0 e = (w1 @ t0) # t1 # t2 # t3 # t4 # (butlast r @ [last r @ w2])"
      using F T by simp
    then show ?thesis using T h by simp
  qed
qed

lemma commits_loop_rel:
  "\<exists>cs t'. commits_loop fromiso clock es (acc, t) = (acc @ cs, t') \<and>
     list_all2
       (\<lambda>e r. case fromiso (iso_text (split_on 0 (strip e) ! 3)) of
                 Some d \<Rightarrow> r = make_commit (split_on 0 (strip e)) d
               | None \<Rightarrow> (\<exists>k. r = make_commit (split_on 0 (strip e)) (clock k)))
       (filter (\<lambda>e. 5 \<le> length (split_on 0 e)) es) cs"
  (is "\<exists>cs t'. _ \<and> list_all2 ?R _ cs")
proof (induction es arbitrary: acc t)
  case Nil
  then show ?case by simp
next
  case (Cons e es)
  let ?T = "split_on 0 (strip e)"
  show ?case
  proof (cases "5 \<le> length (split_on 0 e)")
    case False
    then have "commits_loop fromiso clock (e # es) (acc, t) = commits_loop fromiso clock es (acc, t)"
      by (simp add: Let_def length_fields_strip)
    then show ?thesis using Cons.IH[of acc t] False by simp
  next
    case True
    then have len: "5 \<le> length ?T" by (simp add: length_fields_strip)
    then have ne: "strip e \<noteq> []" by auto
    show ?thesis
    proof (cases "fromiso (iso_text (?T ! 3))")
      case None
      obtain cs t' where step:
        "commits_loop fromiso clock es (acc @ [make_commit ?T (clock t)], Suc t)
           = ((acc @ [make_commit ?T (clock t)]) @ cs, t')"
        and rel: "list_all2 ?R (filter (\<lambda>e. 5 \<le> length (split_on 0 e)) es) cs"
        using Cons.IH[of "acc @ [make_commit ?T (clock t)]" "Suc t"] by blast
      have "commits_loop fromiso clock (e # es) (acc, t) = (acc @ make_commit ?T (clock t) # cs, t')"
        using ne len None step by (simp add: Let_def)
      moreover have "?R e (make_commit ?T (clock t))" using None by auto
      ultimately show ?thesis using rel True by auto
    next
      case (Some d)
      obtain cs t' where step:
        "commits_loop fromiso clock es (acc @ [make_commit ?T d], t)
           = ((acc @ [make_commit ?T d]) @ cs, t')"
        and rel: "list_all2 ?R (filter (\<lambda>e. 5 \<le> length (split_on 0 e)) es) cs"
        using Cons.IH[of "acc @ [make_commit ?T d]" t] by blast
      have "commits_loop fromiso clock (e # es) (acc, t) = (acc @ make_commit ?T d # cs, t')"
        using ne len Some step by (simp add: Let_def)
      moreover have "?R e (make_commit ?T d)" using Some by auto
      ultimately show ?thesis using rel True by auto
    qed
  qed
qed

lemma parse_commits_rel:
  "list_all2
     (\<lambda>e r. case fromiso (iso_text (split_on 0 (strip e) ! 3)) of
               Some d \<Rightarrow> r = make_commit (split_on 0 (strip e)) d
             | None \<Rightarrow> (\<exists>k. r = make_commit (split_on 0 (strip e)) (clock k)))
     (filter (\<lambda>e. 5 \<le> length (split_on 0 e)) (split_on 1 out))
     (parse_commits fromiso clock out)"
proof (cases "strip out = []")
  case True
  then have ws: "\<forall>c\<in>set out. isspace c" by (simp add: strip_empty_iff)
  then have "split_on 1 out = [out]" by (simp add: split_on_no_sep one_not_space)
  moreover have "length (split_on 0 out) = 1"
    using length_fields_strip[of out] True by simp
  ultimately show ?thesis using True by (simp add: parse_commits_def)
next
  case False
  obtain cs t' where "commits_loop fromiso clock (split_on 1 out) ([], 0) = ([] @ cs, t')"
    and "list_all2
     (\<lambda>e r. case fromiso (iso_text (split_on 0 (strip e) ! 3)) of
               Some d \<Rightarrow> r = make_commit (split_on 0 (strip e)) d
             | None \<Rightarrow> (\<exists>k. r = make_commit (split_on 0 (strip e)) (clock k)))
     (filter (\<lambda>e. 5 \<le> length (split_on 0 e)) (split_on 1 out)) cs"
    using commits_loop_rel[where fromiso=fromiso and clock=clock and es="split_on 1 out" and acc="[]" and t=0] by blast
  then show ?thesis using False by (simp add: parse_commits_def)
qed

section \<open>The commit log\<close>

text \<open>
  C5, as stated, fails on the code: each fragment is trimmed before it is cut into
  fields, so a first or last field does not always come back exactly. In the log of two
  commits the second fragment starts with the newline that separates the records: its
  first field is a newline followed by the hash, and the record's hash is that field
  without the newline. In a record of exactly five fields whose subject ends with a
  space, the record's subject is the field without the space.
\<close>

theorem parse_commits_exact_counterexample:
  "5 \<le> length (split_on 0 (split_on 1 example_log ! 1)) \<and>
   split_on 0 (split_on 1 example_log ! 1) ! 0 = 10 # lit ''d4e5f6'' \<and>
   hash (parse_commits (\<lambda>s. None) (\<lambda>k. k) example_log ! 1) = lit ''d4e5f6'' \<and>
   split_on 0 (split_on 1
     (lit ''a1b2c3'' @ [0] @ lit ''Ann Lee'' @ [0] @ lit ''ann@example.org'' @ [0] @
      lit ''2024-01-02 10:00:00 +0100'' @ [0] @ lit ''Fix parser '' @ [1]) ! 0) ! 4
     = lit ''Fix parser '' \<and>
   map subject (parse_commits (\<lambda>s. None) (\<lambda>k. k)
     (lit ''a1b2c3'' @ [0] @ lit ''Ann Lee'' @ [0] @ lit ''ann@example.org'' @ [0] @
      lit ''2024-01-02 10:00:00 +0100'' @ [0] @ lit ''Fix parser '' @ [1]))
     = [lit ''Fix parser'']"
  by (simp add: example_log_def parse_commits_def strip_def lstrip_def rstrip_def isspace_def
      make_commit_def iso_text_def remove_spaces_def)

text \<open>
  C5, amended: for every commit-log text built with the record sentinel (0x01) and the
  field sentinel (0x00), the parser returns one record for each fragment with at least
  five fields, in input order, and reads the fields of the fragment with its leading and
  trailing whitespace removed: author and email equal the second and third input fields
  exactly, hash equals the first input field without its leading whitespace, and subject
  equals the fifth input field exactly when a sixth field follows it, and the fifth field
  without its trailing whitespace when it is the fragment's last field. A fragment with
  fewer than five fields is dropped entirely, and a log text with no fragment of five
  fields yields the empty sequence rather than an error: when the \<open>git log\<close> command
  returns such a text, \<open>get_recent_commits\<close> returns the empty list.
\<close>

theorem parse_commits_fields:
  "list_all2
     (\<lambda>e r. hash r = lstrip (split_on 0 e ! 0) \<and>
             author r = split_on 0 e ! 1 \<and>
             email r = split_on 0 e ! 2 \<and>
             subject r = (if length (split_on 0 e) = 5 then rstrip (split_on 0 e ! 4)
                          else split_on 0 e ! 4))
     (filter (\<lambda>e. 5 \<le> length (split_on 0 e)) (split_on 1 out))
     (parse_commits fromiso clock out) \<and>
   ((\<forall>e\<in>set (split_on 1 out). length (split_on 0 e) < 5) \<longrightarrow>
      parse_commits fromiso clock out = []) \<and>
   (run_git run (log_args days) = Inr out \<and>
    (\<forall>e\<in>set (split_on 1 out). length (split_on 0 e) < 5) \<longrightarrow>
      get_recent_commits run fromiso clock days = Inr [])"
proof (intro conjI impI)
  show "list_all2
     (\<lambda>e r. hash r = lstrip (split_on 0 e ! 0) \<and>
             author r = split_on 0 e ! 1 \<and>
             email r = split_on 0 e ! 2 \<and>
             subject r = (if length (split_on 0 e) = 5 then rstrip (split_on 0 e ! 4)
                          else split_on 0 e ! 4))
     (filter (\<lambda>e. 5 \<le> length (split_on 0 e)) (split_on 1 out))
     (parse_commits fromiso clock out)"
  proof (rule list.rel_mono_strong[OF parse_commits_rel[where fromiso=fromiso and clock=clock and out=out]])
    fix e r
    assume "e \<in> set (filter (\<lambda>e. 5 \<le> length (split_on 0 e)) (split_on 1 out))"
    then have five: "5 \<le> length (split_on 0 e)" by simp
    assume "case fromiso (iso_text (split_on 0 (strip e) ! 3)) of
              Some d \<Rightarrow> r = make_commit (split_on 0 (strip e)) d
            | None \<Rightarrow> (\<exists>k. r = make_commit (split_on 0 (strip e)) (clock k))"
    then obtain d where "r = make_commit (split_on 0 (strip e)) d"
      by (auto split: option.splits)
    then have "hash r = split_on 0 (strip e) ! 0" "author r = split_on 0 (strip e) ! 1"
      "email r = split_on 0 (strip e) ! 2" "subject r = split_on 0 (strip e) ! 4"
      by (simp_all add: make_commit_def)
    then show "hash r = lstrip (split_on 0 e ! 0) \<and>
             author r = split_on 0 e ! 1 \<and>
             email r = split_on 0 e ! 2 \<and>
             subject r = (if length (split_on 0 e) = 5 then rstrip (split_on 0 e ! 4)
                          else split_on 0 e ! 4)"
      using fields_strip_nth[OF five] by simp
  qed
next
  assume "\<forall>e\<in>set (split_on 1 out). length (split_on 0 e) < 5"
  then have "filter (\<lambda>e. 5 \<le> length (split_on 0 e)) (split_on 1 out) = []"
    by (auto simp: filter_empty_conv)
  then show "parse_commits fromiso clock out = []"
    using parse_commits_rel[where fromiso=fromiso and clock=clock and out=out] by simp
next
  assume a: "run_git run (log_args days) = Inr out \<and>
    (\<forall>e\<in>set (split_on 1 out). length (split_on 0 e) < 5)"
  then have "filter (\<lambda>e. 5 \<le> length (split_on 0 e)) (split_on 1 out) = []"
    by (auto simp: filter_empty_conv)
  then have "parse_commits fromiso clock out = []"
    using parse_commits_rel[where fromiso=fromiso and clock=clock and out=out] by simp
  then show "get_recent_commits run fromiso clock days = Inr []"
    using a by (simp add: get_recent_commits_def)
qed

theorem parse_commits_fields_witness:
  "parse_commits (\<lambda>s. None) (\<lambda>k. k)
     (lit ''a1b2c3'' @ [0] @ lit ''Ann Lee'' @ [0] @ lit ''ann@example.org'' @ [0] @
      lit ''2024-01-02 10:00:00 +0100'' @ [1]) = [] \<and>
   map hash (parse_commits (\<lambda>s. None) (\<lambda>k. k) example_log) = [lit ''a1b2c3'', lit ''d4e5f6''] \<and>
   map author (parse_commits (\<lambda>s. None) (\<lambda>k. k) example_log) = [lit ''Ann Lee'', lit ''Bob Roy''] \<and>
   map email (parse_commits (\<lambda>s. None) (\<lambda>k. k) example_log)
     = [lit ''ann@example.org'', lit ''bob@example.org''] \<and>
   map subject (parse_commits (\<lambda>s. None) (\<lambda>k. k) example_log)
     = [lit ''Fix parser'', lit ''Add tests'']"
proof -
  have four: "parse_commits (\<lambda>s. None) (\<lambda>k. k)
     (lit ''a1b2c3'' @ [0] @ lit ''Ann Lee'' @ [0] @ lit ''ann@example.org'' @ [0] @
      lit ''2024-01-02 10:00:00 +0100'' @ [1]) = []"
    using parse_commits_fields [where fromiso="\<lambda>s. None" and clock="\<lambda>k. k"
      and out="lit ''a1b2c3'' @ [0] @ lit ''Ann Lee'' @ [0] @ lit ''ann@example.org'' @ [0] @
       lit ''2024-01-02 10:00:00 +0100'' @ [1]", THEN conjunct2, THEN conjunct1]
    by simp
  have es: "filter (\<lambda>e. 5 \<le> length (split_on 0 e)) (split_on 1 example_log) =
    [lit ''a1b2c3'' @ [0] @ lit ''Ann Lee'' @ [0] @ lit ''ann@example.org'' @ [0] @
     lit ''2024-01-02 10:00:00 +0100'' @ [0] @ lit ''Fix parser'' @ [0] @ lit ''Details.'' @ [0],
     [10] @ lit ''d4e5f6'' @ [0] @ lit ''Bob Roy'' @ [0] @ lit ''bob@example.org'' @ [0] @
     lit ''yesterday'' @ [0] @ lit ''Add tests'' @ [0] @ [0]]"
    by (simp add: example_log_def)
  have two: "map hash (parse_commits (\<lambda>s. None) (\<lambda>k. k) example_log) = [lit ''a1b2c3'', lit ''d4e5f6''] \<and>
   map author (parse_commits (\<lambda>s. None) (\<lambda>k. k) example_log) = [lit ''Ann Lee'', lit ''Bob Roy''] \<and>
   map email (parse_commits (\<lambda>s. None) (\<lambda>k. k) example_log)
     = [lit ''ann@example.org'', lit ''bob@example.org''] \<and>
   map subject (parse_commits (\<lambda>s. None) (\<lambda>k. k) example_log)
     = [lit ''Fix parser'', lit ''Add tests'']"
    using parse_commits_fields [where fromiso="\<lambda>s. None" and clock="\<lambda>k. k" and out=example_log,
      THEN conjunct1]
    unfolding es
    by (auto simp: list_all2_Cons1 lstrip_def isspace_def)
  show ?thesis using four two by blast
qed

text \<open>
  C7: a record with at least five fields whose date fails to parse is still returned,
  with a reading of the wall clock as its timestamp: the number of records returned is
  the number of fragments with at least five fields, whatever the date parser does, and
  each record's date is the parsed date when parsing succeeds and a clock reading when
  it fails.
\<close>

theorem parse_commits_date_fallback:
  "length (parse_commits fromiso clock out) =
     length (filter (\<lambda>e. 5 \<le> length (split_on 0 e)) (split_on 1 out)) \<and>
   list_all2
     (\<lambda>e r. case fromiso (iso_text (split_on 0 e ! 3)) of
               Some d \<Rightarrow> date r = d
             | None \<Rightarrow> (\<exists>k. date r = clock k))
     (filter (\<lambda>e. 5 \<le> length (split_on 0 e)) (split_on 1 out))
     (parse_commits fromiso clock out)"
proof (intro conjI)
  show "length (parse_commits fromiso clock out) =
     length (filter (\<lambda>e. 5 \<le> length (split_on 0 e)) (split_on 1 out))"
    using parse_commits_rel[where fromiso=fromiso and clock=clock and out=out] by (simp add: list_all2_lengthD)
next
  show "list_all2
     (\<lambda>e r. case fromiso (iso_text (split_on 0 e ! 3)) of
               Some d \<Rightarrow> date r = d
             | None \<Rightarrow> (\<exists>k. date r = clock k))
     (filter (\<lambda>e. 5 \<le> length (split_on 0 e)) (split_on 1 out))
     (parse_commits fromiso clock out)"
  proof (rule list.rel_mono_strong[OF parse_commits_rel[where fromiso=fromiso and clock=clock and out=out]])
    fix e r
    assume "e \<in> set (filter (\<lambda>e. 5 \<le> length (split_on 0 e)) (split_on 1 out))"
    then have "5 \<le> length (split_on 0 e)" by simp
    then have f3: "split_on 0 (strip e) ! 3 = split_on 0 e ! 3"
      using fields_strip_nth by blast
    assume "case fromiso (iso_text (split_on 0 (strip e) ! 3)) of
              Some d \<Rightarrow> r = make_commit (split_on 0 (strip e)) d
            | None \<Rightarrow> (\<exists>k. r = make_commit (split_on 0 (strip e)) (clock k))"
    then show "case fromiso (iso_text (split_on 0 e ! 3)) of
               Some d \<Rightarrow> date r = d
             | None \<Rightarrow> (\<exists>k. date r = clock k)"
      unfolding f3 by (auto simp: make_commit_def split: option.splits)
  qed
qed

theorem parse_commits_date_fallback_witness:
  "length (parse_commits (\<lambda>s. if s = lit ''2024-01-02T10:00:00+0100'' then Some 7 else None)
             (\<lambda>k. 100 + k) example_log) = 2 \<and>
   (\<exists>k. date (parse_commits (\<lambda>s. if s = lit ''2024-01-02T10:00:00+0100'' then Some 7 else None)
             (\<lambda>k. 100 + k) example_log ! 1) = 100 + k) \<and>
   date (parse_commits (\<lambda>s. if s = lit ''2024-01-02T10:00:00+0100'' then Some 7 else None)
             (\<lambda>k. 100 + k) example_log ! 0) = 7"
proof -
  let ?f = "\<lambda>s. if s = lit ''2024-01-02T10:00:00+0100'' then Some (7::nat) else None"
  let ?c = "\<lambda>k::nat. 100 + k"
  have es: "filter (\<lambda>e. 5 \<le> length (split_on 0 e)) (split_on 1 example_log) =
    [lit ''a1b2c3'' @ [0] @ lit ''Ann Lee'' @ [0] @ lit ''ann@example.org'' @ [0] @
     lit ''2024-01-02 10:00:00 +0100'' @ [0] @ lit ''Fix parser'' @ [0] @ lit ''Details.'' @ [0],
     [10] @ lit ''d4e5f6'' @ [0] @ lit ''Bob Roy'' @ [0] @ lit ''bob@example.org'' @ [0] @
     lit ''yesterday'' @ [0] @ lit ''Add tests'' @ [0] @ [0]]"
    by (simp add: example_log_def)
  have len: "length (parse_commits ?f ?c example_log) = 2"
    using parse_commits_date_fallback [where fromiso="?f" and clock="?c" and out=example_log,
      THEN conjunct1] unfolding es by simp
  have "list_all2
     (\<lambda>e r. case ?f (iso_text (split_on 0 e ! 3)) of
               Some d \<Rightarrow> date r = d
             | None \<Rightarrow> (\<exists>k. date r = ?c k))
     (filter (\<lambda>e. 5 \<le> length (split_on 0 e)) (split_on 1 example_log))
     (parse_commits ?f ?c example_log)"
    using parse_commits_date_fallback [where fromiso="?f" and clock="?c" and out=example_log,
      THEN conjunct2] .
  then have dates: "(\<exists>k. date (parse_commits ?f ?c example_log ! 1) = 100 + k) \<and>
      date (parse_commits ?f ?c example_log ! 0) = 7"
    unfolding es
    by (auto simp: list_all2_Cons1 iso_text_def remove_spaces_def strip_def lstrip_def
        rstrip_def isspace_def)
  show ?thesis using len dates by blast
qed

end
